theory Spec2Isabelle
  imports Main "HOL-Library.Word"
begin

section \<open>The Voting contract\<close>

text \<open>
  A shallow embedding of the Solidity contract \<open>Voting\<close> (the whitelist variant with the
  election counter \<open>electionId\<close>). The contract storage is a record, every external
  function is a function from the storage before the call to an optional error and the
  storage at the point where the call stopped, and the transaction around a call is
  \<open>transact\<close>, which throws the working storage away when the call reverted.
\<close>

subsection \<open>Types\<close>

text \<open>
  An \<open>address\<close> is a 160-bit word. A \<open>uint256\<close> is a natural number; the compiler
  (pragma 0.8.19) checks every addition and panics where the sum leaves the range, which
  \<open>checked_add\<close> writes out. Loop counters and array lengths are bounded by the length
  of the array they run over and are plain naturals.
\<close>

type_synonym address = "160 word"
type_synonym uint256 = nat

definition uint256_max :: nat where
  "uint256_max = 2 ^ 256 - 1"

definition checked_add :: "uint256 \<Rightarrow> uint256 \<Rightarrow> uint256 option" where
  "checked_add a b = (if a + b \<le> uint256_max then Some (a + b) else None)"

record Choice =
  label :: string
  votes :: uint256

datatype event =
    PollTitleSet string
  | ChoicesSet uint256
  | WhitelistSet uint256
  | WhitelistAdded address
  | WhitelistRemoved address
  | ElectionStarted uint256
  | ElectionEnded uint256
  | VoteCast address uint256

text \<open>
  One constructor for each revert reason of the source, in the order of their first
  appearance, and one for the arithmetic panic:
  \<open>"Only owner"\<close>, \<open>"Election not active"\<close>, \<open>"Election active"\<close>, \<open>"No choices"\<close>,
  \<open>"Empty choice"\<close>, \<open>"No voters"\<close>, \<open>"Invalid voter"\<close>, \<open>"Not whitelisted"\<close>,
  \<open>"Election already active"\<close>, \<open>"Election already ended"\<close>, \<open>"Invalid choice"\<close>,
  \<open>"Already voted"\<close>.
\<close>

datatype error =
    Only_owner
  | Election_not_active
  | Election_active
  | No_choices
  | Empty_choice
  | No_voters
  | Invalid_voter
  | Not_whitelisted
  | Election_already_active
  | Election_already_ended
  | Invalid_choice
  | Already_voted
  | Panic_overflow

text \<open>The storage of the contract, and the log of the events it has emitted.\<close>

record Voting =
  owner :: address
  electionActive :: bool
  electionStart :: uint256
  electionEnd :: uint256
  pollTitle :: string
  electionId :: uint256
  choices :: "Choice list"
  whitelistAddresses :: "address list"
  isWhitelisted :: "address \<Rightarrow> bool"
  lastVotedElection :: "address \<Rightarrow> uint256"
  lastVotedChoice :: "address \<Rightarrow> uint256"
  lastVotedAt :: "address \<Rightarrow> uint256"
  events :: "event list"

text \<open>
  The result of running a function body: \<open>(None, s')\<close> when it returned with storage
  \<open>s'\<close>, \<open>(Some e, w)\<close> when it reverted with reason \<open>e\<close> while the working storage was
  \<open>w\<close>.
\<close>

type_synonym outcome = "error option \<times> Voting"

text \<open>
  A transaction commits the storage of a call that returned and restores the storage
  from before the call when it reverted.
\<close>

definition transact :: "(Voting \<Rightarrow> outcome) \<Rightarrow> Voting \<Rightarrow> outcome" where
  "transact body s = (case body s of (None, s') \<Rightarrow> (None, s') | (Some e, w) \<Rightarrow> (Some e, s))"

subsection \<open>Construction\<close>

definition constructor :: "address \<Rightarrow> Voting" where
  "constructor msg_sender =
     \<lparr> owner = msg_sender, electionActive = False, electionStart = 0, electionEnd = 0,
       pollTitle = [], electionId = 0, choices = [], whitelistAddresses = [],
       isWhitelisted = (\<lambda>_. False), lastVotedElection = (\<lambda>_. 0),
       lastVotedChoice = (\<lambda>_. 0), lastVotedAt = (\<lambda>_. 0), events = [] \<rparr>"

subsection \<open>Internal functions\<close>

text \<open>\<open>_resetVotes\<close>: the loop over \<open>choices\<close> that sets every \<open>votes\<close> to 0.\<close>

fun resetVotes_loop :: "Choice list \<Rightarrow> Choice list" where
  "resetVotes_loop [] = []"
| "resetVotes_loop (c # cs) = c\<lparr>votes := 0\<rparr> # resetVotes_loop cs"

definition resetVotes :: "Voting \<Rightarrow> Voting" where
  "resetVotes s = s\<lparr>choices := resetVotes_loop (choices s)\<rparr>"

text \<open>
  \<open>_clearWhitelist\<close>: the loop over \<open>whitelistAddresses\<close> that clears the flag of every
  entry, then \<open>delete whitelistAddresses\<close>.
\<close>

fun clearWhitelist_loop :: "address list \<Rightarrow> (address \<Rightarrow> bool) \<Rightarrow> (address \<Rightarrow> bool)" where
  "clearWhitelist_loop [] f = f"
| "clearWhitelist_loop (addr # rest) f =
     clearWhitelist_loop rest (if f addr then f(addr := False) else f)"

definition clearWhitelist :: "Voting \<Rightarrow> Voting" where
  "clearWhitelist s =
     s\<lparr>isWhitelisted := clearWhitelist_loop (whitelistAddresses s) (isWhitelisted s),
       whitelistAddresses := []\<rparr>"

text \<open>\<open>_activeWhitelistCount\<close>: the number of entries of the sequence whose flag is set.\<close>

fun activeWhitelistCount_loop :: "address list \<Rightarrow> (address \<Rightarrow> bool) \<Rightarrow> nat \<Rightarrow> nat" where
  "activeWhitelistCount_loop [] f count = count"
| "activeWhitelistCount_loop (addr # rest) f count =
     activeWhitelistCount_loop rest f (if f addr then count + 1 else count)"

definition activeWhitelistCount :: "Voting \<Rightarrow> nat" where
  "activeWhitelistCount s = activeWhitelistCount_loop (whitelistAddresses s) (isWhitelisted s) 0"

subsection \<open>Configuration\<close>

text \<open>
  The modifiers run in the order they are written: \<open>onlyOwner\<close>, then
  \<open>onlyWhenInactive\<close>, then the body.
\<close>

definition setPollTitle :: "address \<Rightarrow> string \<Rightarrow> Voting \<Rightarrow> outcome" where
  "setPollTitle msg_sender title s =
     (if msg_sender \<noteq> owner s then (Some Only_owner, s)
      else if electionActive s then (Some Election_active, s)
      else (None, s\<lparr>pollTitle := title, events := events s @ [PollTitleSet title]\<rparr>))"

fun setChoices_loop :: "string list \<Rightarrow> Voting \<Rightarrow> outcome" where
  "setChoices_loop [] s = (None, s)"
| "setChoices_loop (l # ls) s =
     (if \<not> length l > 0 then (Some Empty_choice, s)
      else setChoices_loop ls (s\<lparr>choices := choices s @ [\<lparr>label = l, votes = 0\<rparr>]\<rparr>))"

definition setChoices :: "address \<Rightarrow> string list \<Rightarrow> Voting \<Rightarrow> outcome" where
  "setChoices msg_sender labels s =
     (if msg_sender \<noteq> owner s then (Some Only_owner, s)
      else if electionActive s then (Some Election_active, s)
      else if \<not> length labels > 0 then (Some No_choices, s)
      else (case setChoices_loop labels (s\<lparr>choices := []\<rparr>) of
              (Some e, w) \<Rightarrow> (Some e, w)
            | (None, s') \<Rightarrow> (None, s'\<lparr>events := events s' @ [ChoicesSet (length labels)]\<rparr>)))"

fun setWhitelist_loop :: "address list \<Rightarrow> Voting \<Rightarrow> outcome" where
  "setWhitelist_loop [] s = (None, s)"
| "setWhitelist_loop (voter # rest) s =
     (if voter = 0 then (Some Invalid_voter, s)
      else if \<not> isWhitelisted s voter
        then setWhitelist_loop rest
               (s\<lparr>isWhitelisted := (isWhitelisted s)(voter := True),
                  whitelistAddresses := whitelistAddresses s @ [voter]\<rparr>)
      else setWhitelist_loop rest s)"

definition setWhitelist :: "address \<Rightarrow> address list \<Rightarrow> Voting \<Rightarrow> outcome" where
  "setWhitelist msg_sender voters s =
     (if msg_sender \<noteq> owner s then (Some Only_owner, s)
      else if electionActive s then (Some Election_active, s)
      else if \<not> length voters > 0 then (Some No_voters, s)
      else (case setWhitelist_loop voters (clearWhitelist s) of
              (Some e, w) \<Rightarrow> (Some e, w)
            | (None, s') \<Rightarrow> (None, s'\<lparr>events := events s' @ [WhitelistSet (length voters)]\<rparr>)))"

definition addToWhitelist :: "address \<Rightarrow> address \<Rightarrow> Voting \<Rightarrow> outcome" where
  "addToWhitelist msg_sender voter s =
     (if msg_sender \<noteq> owner s then (Some Only_owner, s)
      else if electionActive s then (Some Election_active, s)
      else if voter = 0 then (Some Invalid_voter, s)
      else if \<not> isWhitelisted s voter
        then (None, s\<lparr>isWhitelisted := (isWhitelisted s)(voter := True),
                       whitelistAddresses := whitelistAddresses s @ [voter],
                       events := events s @ [WhitelistAdded voter]\<rparr>)
      else (None, s))"

definition removeFromWhitelist :: "address \<Rightarrow> address \<Rightarrow> Voting \<Rightarrow> outcome" where
  "removeFromWhitelist msg_sender voter s =
     (if msg_sender \<noteq> owner s then (Some Only_owner, s)
      else if electionActive s then (Some Election_active, s)
      else if \<not> isWhitelisted s voter then (Some Not_whitelisted, s)
      else (None, s\<lparr>isWhitelisted := (isWhitelisted s)(voter := False),
                     events := events s @ [WhitelistRemoved voter]\<rparr>))"

subsection \<open>Lifecycle\<close>

definition startElection :: "address \<Rightarrow> uint256 \<Rightarrow> Voting \<Rightarrow> outcome" where
  "startElection msg_sender block_timestamp s =
     (if msg_sender \<noteq> owner s then (Some Only_owner, s)
      else if electionActive s then (Some Election_already_active, s)
      else if \<not> length (choices s) > 0 then (Some No_choices, s)
      else if \<not> activeWhitelistCount s > 0 then (Some No_voters, s)
      else (let s1 = resetVotes s in
            case checked_add (electionId s1) 1 of
              None \<Rightarrow> (Some Panic_overflow, s1)
            | Some n \<Rightarrow>
                (None, s1\<lparr>electionId := n, electionActive := True,
                          electionStart := block_timestamp, electionEnd := 0,
                          events := events s1 @ [ElectionStarted block_timestamp]\<rparr>)))"

definition endElection :: "address \<Rightarrow> uint256 \<Rightarrow> Voting \<Rightarrow> outcome" where
  "endElection msg_sender block_timestamp s =
     (if msg_sender \<noteq> owner s then (Some Only_owner, s)
      else if \<not> electionActive s then (Some Election_already_ended, s)
      else (None, s\<lparr>electionActive := False, electionEnd := block_timestamp,
                     events := events s @ [ElectionEnded block_timestamp]\<rparr>))"

subsection \<open>Voting\<close>

definition vote :: "address \<Rightarrow> uint256 \<Rightarrow> uint256 \<Rightarrow> Voting \<Rightarrow> outcome" where
  "vote msg_sender block_timestamp choiceIndex s =
     (if \<not> electionActive s then (Some Election_not_active, s)
      else if \<not> choiceIndex < length (choices s) then (Some Invalid_choice, s)
      else if \<not> isWhitelisted s msg_sender then (Some Not_whitelisted, s)
      else if \<not> lastVotedElection s msg_sender < electionId s then (Some Already_voted, s)
      else (let s1 = s\<lparr>lastVotedElection := (lastVotedElection s)(msg_sender := electionId s)\<rparr>;
                s2 = s1\<lparr>lastVotedChoice := (lastVotedChoice s1)(msg_sender := choiceIndex)\<rparr>;
                s3 = s2\<lparr>lastVotedAt := (lastVotedAt s2)(msg_sender := block_timestamp)\<rparr>
            in case checked_add (votes (choices s3 ! choiceIndex)) 1 of
                 None \<Rightarrow> (Some Panic_overflow, s3)
               | Some n \<Rightarrow>
                   (None, s3\<lparr>choices := (choices s3)[choiceIndex := (choices s3 ! choiceIndex)\<lparr>votes := n\<rparr>],
                             events := events s3 @ [VoteCast msg_sender choiceIndex]\<rparr>)))"

subsection \<open>Read accessors\<close>

definition choiceCount :: "Voting \<Rightarrow> uint256" where
  "choiceCount s = length (choices s)"

definition choiceInfo :: "uint256 \<Rightarrow> Voting \<Rightarrow> error + (string \<times> uint256)" where
  "choiceInfo choiceIndex s =
     (if \<not> choiceIndex < length (choices s) then Inl Invalid_choice
      else (let choice = choices s ! choiceIndex in Inr (label choice, votes choice)))"

definition whitelistCount :: "Voting \<Rightarrow> uint256" where
  "whitelistCount s = length (whitelistAddresses s)"

definition whitelistEntry :: "uint256 \<Rightarrow> Voting \<Rightarrow> error + (address \<times> bool)" where
  "whitelistEntry index s =
     (if \<not> index < length (whitelistAddresses s) then Inl Invalid_voter
      else (let addr = whitelistAddresses s ! index in Inr (addr, isWhitelisted s addr)))"

definition voterStatus :: "address \<Rightarrow> Voting \<Rightarrow> bool \<times> bool \<times> uint256 \<times> uint256" where
  "voterStatus voter s =
     (let votedThisElection = (lastVotedElection s voter = electionId s) in
      (isWhitelisted s voter,
       votedThisElection,
       if votedThisElection then lastVotedChoice s voter else 0,
       if votedThisElection then lastVotedAt s voter else 0))"

text \<open>
  \<open>getWinner\<close>: the loop carries \<open>(topVotes, topIndex, tie, found)\<close>; \<open>getWinner_step i\<close>
  is its body at index \<open>i\<close>.
\<close>

type_synonym leader = "uint256 \<times> uint256 \<times> bool \<times> bool"

fun getWinner_step :: "nat \<Rightarrow> Choice \<Rightarrow> leader \<Rightarrow> leader" where
  "getWinner_step i choice (topVotes, topIndex, tie, found) =
     (if \<not> found \<or> votes choice > topVotes then (votes choice, i, False, True)
      else if votes choice = topVotes then (topVotes, topIndex, True, found)
      else (topVotes, topIndex, tie, found))"

fun getWinner_loop :: "Choice list \<Rightarrow> nat \<Rightarrow> leader \<Rightarrow> leader" where
  "getWinner_loop [] i acc = acc"
| "getWinner_loop (choice # rest) i acc = getWinner_loop rest (i + 1) (getWinner_step i choice acc)"

definition getWinner :: "Voting \<Rightarrow> uint256 \<times> string \<times> uint256 \<times> bool \<times> bool" where
  "getWinner s =
     (case getWinner_loop (choices s) 0 (0, 0, False, False) of
        (topVotes, topIndex, tie, found) \<Rightarrow>
          if \<not> found then (0, [], 0, False, False)
          else (topIndex, label (choices s ! topIndex), topVotes, tie, True))"

subsection \<open>Calls and reachable states\<close>

datatype call =
    SetPollTitle string
  | SetChoices "string list"
  | SetWhitelist "address list"
  | AddToWhitelist address
  | RemoveFromWhitelist address
  | StartElection
  | EndElection
  | Vote uint256

fun dispatch :: "address \<Rightarrow> uint256 \<Rightarrow> call \<Rightarrow> Voting \<Rightarrow> outcome" where
  "dispatch msg_sender block_timestamp (SetPollTitle title) = setPollTitle msg_sender title"
| "dispatch msg_sender block_timestamp (SetChoices labels) = setChoices msg_sender labels"
| "dispatch msg_sender block_timestamp (SetWhitelist voters) = setWhitelist msg_sender voters"
| "dispatch msg_sender block_timestamp (AddToWhitelist voter) = addToWhitelist msg_sender voter"
| "dispatch msg_sender block_timestamp (RemoveFromWhitelist voter) = removeFromWhitelist msg_sender voter"
| "dispatch msg_sender block_timestamp StartElection = startElection msg_sender block_timestamp"
| "dispatch msg_sender block_timestamp EndElection = endElection msg_sender block_timestamp"
| "dispatch msg_sender block_timestamp (Vote choiceIndex) = vote msg_sender block_timestamp choiceIndex"

definition exec :: "address \<Rightarrow> uint256 \<Rightarrow> call \<Rightarrow> Voting \<Rightarrow> outcome" where
  "exec msg_sender block_timestamp c s = transact (dispatch msg_sender block_timestamp c) s"

text \<open>
  The states of a deployed contract: the state after construction, and every state
  after a transaction on such a state, whoever sends it and whenever.
\<close>

inductive reachable :: "Voting \<Rightarrow> bool" where
  reachable_init: "reachable (constructor deployer)"
| reachable_step: "reachable s \<Longrightarrow> reachable (snd (exec msg_sender block_timestamp c s))"

subsection \<open>An invariant of the reachable states\<close>

text \<open>
  No identity has voted in an election later than the current one; the votes of the
  current tally are at most as many as the identities that voted in the current election;
  every identity whose flag is set is an entry of the enumeration sequence; and while the
  election is active, who has voted in it is whitelisted.
\<close>

definition invariant :: "Voting \<Rightarrow> bool" where
  "invariant s \<longleftrightarrow>
     (\<forall>a. lastVotedElection s a \<le> electionId s) \<and>
     sum_list (map votes (choices s)) \<le> card {a. lastVotedElection s a = electionId s} \<and>
     (\<forall>a. isWhitelisted s a \<longrightarrow> a \<in> set (whitelistAddresses s)) \<and>
     (electionActive s \<longrightarrow> (\<forall>a. lastVotedElection s a = electionId s \<longrightarrow> isWhitelisted s a))"

subsection \<open>A scenario\<close>

text \<open>
  The administrator \<open>1\<close> configures the choices A and B and the whitelist of the
  identities \<open>2\<close> and \<open>3\<close> and starts the election; \<open>2\<close> votes for index 0 and
  \<open>3\<close> for index 1; the administrator ends the election.
\<close>

definition scenario_configured :: Voting where
  "scenario_configured =
     snd (exec 1 11 (SetWhitelist [2, 3])
       (snd (exec 1 10 (SetChoices [''A'', ''B'']) (constructor 1))))"

definition scenario_started :: Voting where
  "scenario_started = snd (exec 1 100 StartElection scenario_configured)"

definition scenario_voted :: Voting where
  "scenario_voted = snd (exec 3 102 (Vote 1) (snd (exec 2 101 (Vote 0) scenario_started)))"

definition scenario_ended :: Voting where
  "scenario_ended = snd (exec 1 200 EndElection scenario_voted)"

text \<open>The administrator starts a second election.\<close>

definition scenario_restarted :: Voting where
  "scenario_restarted = snd (exec 1 300 StartElection scenario_ended)"

text \<open>A tally of 3, 3 and 1 votes, for the tie at the maximum.\<close>

definition tally_3_3_1 :: Voting where
  "tally_3_3_1 = (constructor 1)\<lparr>choices :=
     [\<lparr>label = ''A'', votes = 3\<rparr>, \<lparr>label = ''B'', votes = 3\<rparr>, \<lparr>label = ''C'', votes = 1\<rparr>]\<rparr>"

section \<open>Properties\<close>

subsection \<open>Each loop, characterised\<close>

lemma resetVotes_loop_map: "resetVotes_loop cs = map (\<lambda>c. c\<lparr>votes := 0\<rparr>) cs"
  by (induction cs) simp_all

lemma clearWhitelist_loop_eq: "clearWhitelist_loop xs f = (\<lambda>a. f a \<and> a \<notin> set xs)"
  by (induction xs arbitrary: f) (auto simp: fun_eq_iff)

lemma activeWhitelistCount_loop_eq:
  "activeWhitelistCount_loop xs f n = n + length (filter f xs)"
  by (induction xs arbitrary: n) simp_all

lemma activeWhitelistCount_pos:
  "(activeWhitelistCount s > 0) = (\<exists>a \<in> set (whitelistAddresses s). isWhitelisted s a)"
  by (simp add: activeWhitelistCount_def activeWhitelistCount_loop_eq filter_empty_conv)

text \<open>
  The loop of \<open>setChoices\<close> stops at the first blank label, with the labels before it
  already pushed.
\<close>

lemma setChoices_loop_eq:
  "setChoices_loop ls s =
     (if [] \<in> set ls
      then (Some Empty_choice,
            s\<lparr>choices := choices s @ map (\<lambda>l. \<lparr>label = l, votes = 0\<rparr>) (takeWhile (\<lambda>l. l \<noteq> []) ls)\<rparr>)
      else (None, s\<lparr>choices := choices s @ map (\<lambda>l. \<lparr>label = l, votes = 0\<rparr>) ls\<rparr>))"
  by (induction ls arbitrary: s) auto

text \<open>The loop of \<open>setWhitelist\<close> writes the flags and the sequence only.\<close>

lemma setWhitelist_loop_frame:
  "setWhitelist_loop vs s = (r, s') \<Longrightarrow>
     s' = s\<lparr>isWhitelisted := isWhitelisted s', whitelistAddresses := whitelistAddresses s'\<rparr>"
proof (induction vs arbitrary: s)
  case Nil
  then show ?case by simp
next
  case (Cons v vs)
  show ?case
  proof (cases "v = 0")
    case True
    with Cons.prems show ?thesis by simp
  next
    case False
    show ?thesis
    proof (cases "isWhitelisted s v")
      case True
      with \<open>v \<noteq> 0\<close> Cons.prems have "setWhitelist_loop vs s = (r, s')" by simp
      then show ?thesis by (rule Cons.IH)
    next
      case notw: False
      let ?t = "s\<lparr>isWhitelisted := (isWhitelisted s)(v := True),
                   whitelistAddresses := whitelistAddresses s @ [v]\<rparr>"
      from notw \<open>v \<noteq> 0\<close> Cons.prems have "setWhitelist_loop vs ?t = (r, s')" by simp
      then have "s' = ?t\<lparr>isWhitelisted := isWhitelisted s',
                          whitelistAddresses := whitelistAddresses s'\<rparr>"
        by (rule Cons.IH)
      then show ?thesis by simp
    qed
  qed
qed

lemma setWhitelist_loop_error:
  "fst (setWhitelist_loop vs s) = (if 0 \<in> set vs then Some Invalid_voter else None)"
  by (induction vs arbitrary: s) auto

lemma setWhitelist_loop_flags:
  "setWhitelist_loop vs s = (None, s') \<Longrightarrow>
     isWhitelisted s' = (\<lambda>a. isWhitelisted s a \<or> a \<in> set vs)"
  by (induction vs arbitrary: s) (auto split: if_splits simp: fun_eq_iff)

lemma setWhitelist_loop_addresses:
  "setWhitelist_loop vs s = (None, s') \<Longrightarrow>
     set (whitelistAddresses s') = set (whitelistAddresses s) \<union> {a \<in> set vs. \<not> isWhitelisted s a}"
  by (induction vs arbitrary: s) (auto split: if_splits)

subsection \<open>The scenario, evaluated\<close>

lemma scenario_configured_eq:
  "scenario_configured =
     \<lparr> owner = 1, electionActive = False, electionStart = 0, electionEnd = 0,
       pollTitle = [], electionId = 0,
       choices = [\<lparr>label = ''A'', votes = 0\<rparr>, \<lparr>label = ''B'', votes = 0\<rparr>],
       whitelistAddresses = [2, 3],
       isWhitelisted = (\<lambda>a. a = 2 \<or> a = 3), lastVotedElection = (\<lambda>_. 0),
       lastVotedChoice = (\<lambda>_. 0), lastVotedAt = (\<lambda>_. 0),
       events = [ChoicesSet 2, WhitelistSet 2] \<rparr>"
  by (simp add: scenario_configured_def exec_def transact_def setChoices_def setWhitelist_def
      clearWhitelist_def constructor_def fun_eq_iff)

lemma scenario_started_eq:
  "scenario_started =
     \<lparr> owner = 1, electionActive = True, electionStart = 100, electionEnd = 0,
       pollTitle = [], electionId = 1,
       choices = [\<lparr>label = ''A'', votes = 0\<rparr>, \<lparr>label = ''B'', votes = 0\<rparr>],
       whitelistAddresses = [2, 3],
       isWhitelisted = (\<lambda>a. a = 2 \<or> a = 3), lastVotedElection = (\<lambda>_. 0),
       lastVotedChoice = (\<lambda>_. 0), lastVotedAt = (\<lambda>_. 0),
       events = [ChoicesSet 2, WhitelistSet 2, ElectionStarted 100] \<rparr>"
  by (simp add: scenario_started_def scenario_configured_eq exec_def transact_def
      startElection_def activeWhitelistCount_def resetVotes_def checked_add_def uint256_max_def)

lemma scenario_voted_eq:
  "scenario_voted =
     \<lparr> owner = 1, electionActive = True, electionStart = 100, electionEnd = 0,
       pollTitle = [], electionId = 1,
       choices = [\<lparr>label = ''A'', votes = 1\<rparr>, \<lparr>label = ''B'', votes = 1\<rparr>],
       whitelistAddresses = [2, 3],
       isWhitelisted = (\<lambda>a. a = 2 \<or> a = 3),
       lastVotedElection = (\<lambda>a. if a = 2 \<or> a = 3 then 1 else 0),
       lastVotedChoice = (\<lambda>a. if a = 3 then 1 else 0),
       lastVotedAt = (\<lambda>a. if a = 2 then 101 else if a = 3 then 102 else 0),
       events = [ChoicesSet 2, WhitelistSet 2, ElectionStarted 100, VoteCast 2 0, VoteCast 3 1] \<rparr>"
  by (simp add: scenario_voted_def scenario_started_eq exec_def transact_def
      vote_def checked_add_def uint256_max_def fun_eq_iff)

lemma scenario_ended_eq:
  "scenario_ended = scenario_voted\<lparr>electionActive := False, electionEnd := 200,
      events := events scenario_voted @ [ElectionEnded 200]\<rparr>"
  by (simp add: scenario_ended_def scenario_voted_eq exec_def transact_def endElection_def)

lemma scenario_restarted_eq:
  "scenario_restarted =
     \<lparr> owner = 1, electionActive = True, electionStart = 300, electionEnd = 0,
       pollTitle = [], electionId = 2,
       choices = [\<lparr>label = ''A'', votes = 0\<rparr>, \<lparr>label = ''B'', votes = 0\<rparr>],
       whitelistAddresses = [2, 3],
       isWhitelisted = (\<lambda>a. a = 2 \<or> a = 3),
       lastVotedElection = (\<lambda>a. if a = 2 \<or> a = 3 then 1 else 0),
       lastVotedChoice = (\<lambda>a. if a = 3 then 1 else 0),
       lastVotedAt = (\<lambda>a. if a = 2 then 101 else if a = 3 then 102 else 0),
       events = [ChoicesSet 2, WhitelistSet 2, ElectionStarted 100, VoteCast 2 0, VoteCast 3 1,
                 ElectionEnded 200, ElectionStarted 300] \<rparr>"
  by (simp add: scenario_restarted_def scenario_ended_eq scenario_voted_eq exec_def transact_def
      startElection_def activeWhitelistCount_def resetVotes_def checked_add_def uint256_max_def)

lemma reachable_scenario_configured: "reachable scenario_configured"
  unfolding scenario_configured_def by (intro reachable_step reachable_init)

lemma reachable_scenario_started: "reachable scenario_started"
  unfolding scenario_started_def by (intro reachable_step reachable_scenario_configured)

lemma reachable_scenario_voted: "reachable scenario_voted"
  unfolding scenario_voted_def by (intro reachable_step reachable_scenario_started)

lemma reachable_scenario_ended: "reachable scenario_ended"
  unfolding scenario_ended_def by (intro reachable_step reachable_scenario_voted)

lemma reachable_scenario_restarted: "reachable scenario_restarted"
  unfolding scenario_restarted_def by (intro reachable_step reachable_scenario_ended)

subsection \<open>The invariant holds in every reachable state\<close>

lemma invariant_constructor: "invariant (constructor d)"
  by (simp add: invariant_def constructor_def)

lemma invariant_setPollTitle: "invariant s \<Longrightarrow> setPollTitle m t s = (None, s') \<Longrightarrow> invariant s'"
  by (auto simp: invariant_def setPollTitle_def split: if_splits)

lemma invariant_setChoices: "invariant s \<Longrightarrow> setChoices m ls s = (None, s') \<Longrightarrow> invariant s'"
  by (auto simp: invariant_def setChoices_def setChoices_loop_eq comp_def split: if_splits)

lemma invariant_setWhitelist:
  assumes "invariant s" and "setWhitelist m vs s = (None, s')"
  shows "invariant s'"
proof -
  from assms(2) obtain t where
    inactive: "\<not> electionActive s" and
    loop: "setWhitelist_loop vs (clearWhitelist s) = (None, t)" and
    s': "s' = t\<lparr>events := events t @ [WhitelistSet (length vs)]\<rparr>"
    by (auto simp: setWhitelist_def split: if_splits prod.splits option.splits)
  note frame = setWhitelist_loop_frame [OF loop]
  have flags: "isWhitelisted t = (\<lambda>a. a \<in> set vs)"
    using setWhitelist_loop_flags [OF loop] assms(1)
    by (auto simp: clearWhitelist_def clearWhitelist_loop_eq invariant_def fun_eq_iff)
  have addrs: "set (whitelistAddresses t) = set vs"
    using setWhitelist_loop_addresses [OF loop] assms(1)
    by (auto simp: clearWhitelist_def clearWhitelist_loop_eq invariant_def)
  have "electionActive t = electionActive s" "electionId t = electionId s"
    "lastVotedElection t = lastVotedElection s" "choices t = choices s"
    by (subst frame, simp add: clearWhitelist_def)+
  with assms(1) inactive flags addrs show ?thesis
    by (simp add: invariant_def s')
qed

lemma invariant_addToWhitelist:
  "invariant s \<Longrightarrow> addToWhitelist m v s = (None, s') \<Longrightarrow> invariant s'"
  by (auto simp: invariant_def addToWhitelist_def split: if_splits)

lemma invariant_removeFromWhitelist:
  "invariant s \<Longrightarrow> removeFromWhitelist m v s = (None, s') \<Longrightarrow> invariant s'"
  by (auto simp: invariant_def removeFromWhitelist_def split: if_splits)

lemma invariant_startElection:
  assumes "invariant s" and "startElection m t s = (None, s')"
  shows "invariant s'"
proof -
  from assms(2) have s': "s' = s\<lparr>choices := map (\<lambda>c. c\<lparr>votes := 0\<rparr>) (choices s),
      electionId := electionId s + 1, electionActive := True, electionStart := t,
      electionEnd := 0, events := events s @ [ElectionStarted t]\<rparr>"
    by (auto simp: startElection_def resetVotes_def resetVotes_loop_map checked_add_def
        Let_def split: if_splits)
  from assms(1) have le: "\<And>a. lastVotedElection s a \<le> electionId s"
    and wl: "\<And>a. isWhitelisted s a \<Longrightarrow> a \<in> set (whitelistAddresses s)"
    by (simp_all add: invariant_def)
  have ne: "\<And>a. lastVotedElection s a \<noteq> Suc (electionId s)"
    using le by (metis Suc_n_not_le_n)
  have le': "\<And>a. lastVotedElection s a \<le> Suc (electionId s)"
    using le by (simp add: le_Suc_eq)
  show ?thesis
    unfolding invariant_def s' using wl ne le' by (simp add: comp_def)
qed

lemma invariant_endElection:
  "invariant s \<Longrightarrow> endElection m t s = (None, s') \<Longrightarrow> invariant s'"
  by (auto simp: invariant_def endElection_def split: if_splits)

lemma sum_list_votes_update:
  assumes "i < length cs"
  shows "sum_list (map votes (cs[i := (cs ! i)\<lparr>votes := Suc (votes (cs ! i))\<rparr>])) =
         Suc (sum_list (map votes cs))"
proof -
  have "sum_list (map votes (cs[i := (cs ! i)\<lparr>votes := Suc (votes (cs ! i))\<rparr>])) =
        sum_list ((map votes cs)[i := Suc (votes (cs ! i))])"
    by (simp add: map_update)
  also have "\<dots> = sum_list (map votes cs) + Suc (votes (cs ! i)) - map votes cs ! i"
    using assms by (simp add: sum_list_update)
  also have "\<dots> = Suc (sum_list (map votes cs))"
    using assms by simp
  finally show ?thesis .
qed

lemma invariant_vote:
  assumes "invariant s" and "vote m t i s = (None, s')"
  shows "invariant s'"
proof -
  from assms(2) have act: "electionActive s" and i: "i < length (choices s)"
    and wl: "isWhitelisted s m" and lt: "lastVotedElection s m < electionId s"
    and s': "s' = s\<lparr>lastVotedElection := (lastVotedElection s)(m := electionId s),
        lastVotedChoice := (lastVotedChoice s)(m := i),
        lastVotedAt := (lastVotedAt s)(m := t),
        choices := (choices s)[i := (choices s ! i)\<lparr>votes := Suc (votes (choices s ! i))\<rparr>],
        events := events s @ [VoteCast m i]\<rparr>"
    by (auto simp: vote_def checked_add_def Let_def split: if_splits)
  let ?V = "{a. lastVotedElection s a = electionId s}"
  have set_eq: "{a. ((lastVotedElection s)(m := electionId s)) a = electionId s} = insert m ?V"
    by auto
  have "m \<notin> ?V" using lt by simp
  then have card: "card (insert m ?V) = Suc (card ?V)"
    by simp
  from assms(1) have "sum_list (map votes (choices s)) \<le> card ?V"
    by (simp add: invariant_def)
  then have tally: "sum_list (map votes (choices s')) \<le> card {a. lastVotedElection s' a = electionId s'}"
    unfolding s' using i by (simp add: sum_list_votes_update set_eq card del: fun_upd_apply)
  from assms(1) wl show ?thesis
    unfolding invariant_def using tally by (auto simp: s' invariant_def)
qed

lemma invariant_exec: "invariant s \<Longrightarrow> invariant (snd (exec m t c s))"
proof (cases c)
qed (auto simp: exec_def transact_def split: prod.splits option.splits
    intro: invariant_setPollTitle invariant_setChoices invariant_setWhitelist
      invariant_addToWhitelist invariant_removeFromWhitelist invariant_startElection
      invariant_endElection invariant_vote)

lemma reachable_invariant: "reachable s \<Longrightarrow> invariant s"
  by (induction rule: reachable.induct) (simp_all add: invariant_constructor invariant_exec)

lemma invariant_votes_bound:
  assumes "invariant s" and "i < length (choices s)"
  shows "votes (choices s ! i) \<le> 2 ^ 160"
proof -
  have "votes (choices s ! i) \<le> sum_list (map votes (choices s))"
    using assms(2) by (intro member_le_sum_list) auto
  also have "\<dots> \<le> card {a. lastVotedElection s a = electionId s}"
    using assms(1) by (simp add: invariant_def)
  also have "\<dots> \<le> card (UNIV :: address set)"
    by (intro card_mono) simp_all
  also have "\<dots> = 2 ^ 160"
    by (simp add: card_word)
  finally show ?thesis .
qed

lemma invariant_votes_no_overflow:
  assumes "invariant s" and "i < length (choices s)"
  shows "checked_add (votes (choices s ! i)) 1 = Some (votes (choices s ! i) + 1)"
proof -
  have "(2::nat) ^ 160 + 1 \<le> 2 ^ 256 - 1" by simp
  with invariant_votes_bound [OF assms] show ?thesis
    by (simp add: checked_add_def uint256_max_def)
qed

subsection \<open>The loop of getWinner\<close>

lemma getWinner_loop_snoc:
  "getWinner_loop (cs @ [c]) i acc = getWinner_step (i + length cs) c (getWinner_loop cs i acc)"
  by (induction cs arbitrary: i acc) simp_all

lemma getWinner_loop_leader:
  assumes "cs \<noteq> []"
    and "getWinner_loop cs 0 (0, 0, False, False) = (topVotes, topIndex, tie, found)"
  shows "found \<and> topIndex < length cs \<and> votes (cs ! topIndex) = topVotes
       \<and> (\<forall>j < length cs. votes (cs ! j) \<le> topVotes)
       \<and> (\<forall>j < topIndex. votes (cs ! j) < topVotes)
       \<and> (tie \<longleftrightarrow> (\<exists>j < length cs. j \<noteq> topIndex \<and> votes (cs ! j) = topVotes))"
  using assms
proof (induction cs arbitrary: topVotes topIndex tie found rule: rev_induct)
  case Nil
  then show ?case by simp
next
  case (snoc c cs)
  show ?case
  proof (cases "cs = []")
    case True
    with snoc.prems show ?thesis by auto
  next
    case False
    obtain tv ti t f where prev: "getWinner_loop cs 0 (0, 0, False, False) = (tv, ti, t, f)"
      by (metis prod_cases4)
    note IH = snoc.IH [OF False prev]
    from snoc.prems(2) prev
    have step: "getWinner_step (length cs) c (tv, ti, t, f) = (topVotes, topIndex, tie, found)"
      by (simp add: getWinner_loop_snoc)
    consider (gt) "votes c > tv" | (eq) "votes c = tv" | (lt) "votes c < tv"
      by (rule linorder_cases)
    then show ?thesis
    proof cases
      case gt
      with step IH have "topVotes = votes c" "topIndex = length cs" "\<not> tie" "found"
        by auto
      with gt IH show ?thesis
        by (auto simp: nth_append less_Suc_eq)
    next
      case eq
      with step IH have "topVotes = tv" "topIndex = ti" "tie" "found"
        by auto
      with eq IH show ?thesis
        by (auto simp: nth_append less_Suc_eq)
    next
      case lt
      with step IH have "topVotes = tv" "topIndex = ti" "tie = t" "found"
        by auto
      with lt IH show ?thesis
        by (auto simp: nth_append less_Suc_eq)
    qed
  qed
qed

subsection \<open>What a call leaves alone\<close>

lemma setChoices_records:
  "setChoices m ls s = (r, s') \<Longrightarrow>
     lastVotedElection s' = lastVotedElection s \<and> lastVotedChoice s' = lastVotedChoice s \<and>
     lastVotedAt s' = lastVotedAt s"
  by (auto simp: setChoices_def setChoices_loop_eq split: if_splits)

lemma setWhitelist_records:
  assumes "setWhitelist m vs s = (r, s')"
  shows "lastVotedElection s' = lastVotedElection s \<and> lastVotedChoice s' = lastVotedChoice s \<and>
     lastVotedAt s' = lastVotedAt s"
proof (cases "m = owner s \<and> \<not> electionActive s \<and> vs \<noteq> []")
  case False
  with assms show ?thesis by (auto simp: setWhitelist_def split: if_splits)
next
  case True
  obtain r0 t where loop: "setWhitelist_loop vs (clearWhitelist s) = (r0, t)"
    by (metis surj_pair)
  have t: "lastVotedElection t = lastVotedElection s \<and> lastVotedChoice t = lastVotedChoice s \<and>
     lastVotedAt t = lastVotedAt s"
    by (subst (1 2 3) setWhitelist_loop_frame [OF loop]) (simp add: clearWhitelist_def)
  from assms True loop have "s' = t \<or> s' = t\<lparr>events := events t @ [WhitelistSet (length vs)]\<rparr>"
    by (auto simp: setWhitelist_def split: option.splits)
  with t show ?thesis by auto
qed

lemma dispatch_records:
  assumes "m \<noteq> v \<or> (\<forall>i. c \<noteq> Vote i)"
  shows "lastVotedElection (snd (dispatch m t c s)) v = lastVotedElection s v \<and>
     lastVotedChoice (snd (dispatch m t c s)) v = lastVotedChoice s v \<and>
     lastVotedAt (snd (dispatch m t c s)) v = lastVotedAt s v"
proof (cases c)
  case (SetChoices ls)
  then show ?thesis
    using setChoices_records [of m ls s "fst (setChoices m ls s)" "snd (setChoices m ls s)"]
    by simp
next
  case (SetWhitelist vs)
  then show ?thesis
    using setWhitelist_records [of m vs s "fst (setWhitelist m vs s)" "snd (setWhitelist m vs s)"]
    by simp
next
  case (Vote i)
  with assms have "m \<noteq> v" by simp
  with Vote show ?thesis
    by (simp add: vote_def checked_add_def Let_def split: option.splits)
qed (simp_all add: setPollTitle_def addToWhitelist_def removeFromWhitelist_def
    startElection_def endElection_def resetVotes_def checked_add_def Let_def)

lemma exec_records:
  assumes "m \<noteq> v \<or> (\<forall>i. c \<noteq> Vote i)"
  shows "lastVotedElection (snd (exec m t c s)) v = lastVotedElection s v \<and>
     lastVotedChoice (snd (exec m t c s)) v = lastVotedChoice s v \<and>
     lastVotedAt (snd (exec m t c s)) v = lastVotedAt s v"
  using dispatch_records [OF assms, of t s]
  by (cases "dispatch m t c s") (auto simp: exec_def transact_def split: option.splits)

lemma dispatch_early_reject:
  assumes "dispatch m t c s = (Some e, w)"
    and "e \<noteq> Panic_overflow" and "e \<noteq> Empty_choice"
    and "\<forall>vs. c = SetWhitelist vs \<longrightarrow> e \<noteq> Invalid_voter"
  shows "w = s"
proof (cases c)
  case (SetChoices ls)
  with assms show ?thesis
    by (auto simp: setChoices_def setChoices_loop_eq split: if_splits)
next
  case (SetWhitelist vs)
  obtain r0 t0 where loop: "setWhitelist_loop vs (clearWhitelist s) = (r0, t0)"
    by (metis surj_pair)
  from setWhitelist_loop_error [of vs "clearWhitelist s"] loop
  have "r0 = None \<or> r0 = Some Invalid_voter" by (auto split: if_splits)
  with assms SetWhitelist loop show ?thesis
    by (auto simp: setWhitelist_def split: if_splits)
next
  case StartElection
  with assms show ?thesis
    by (auto simp: startElection_def checked_add_def Let_def split: if_splits option.splits)
next
  case (Vote i)
  with assms show ?thesis
    by (auto simp: vote_def checked_add_def Let_def split: if_splits option.splits)
qed (use assms in \<open>auto simp: setPollTitle_def addToWhitelist_def removeFromWhitelist_def
    endElection_def split: if_splits\<close>)

subsection \<open>A vote in a state that satisfies the invariant\<close>

text \<open>The checked addition of \<open>vote\<close> does not panic there, so only the four checks reject.\<close>

lemma transact_vote_invariant:
  assumes "invariant s"
  shows "transact (vote msg_sender block_timestamp choiceIndex) s =
     (if \<not> electionActive s then (Some Election_not_active, s)
      else if \<not> choiceIndex < choiceCount s then (Some Invalid_choice, s)
      else if \<not> isWhitelisted s msg_sender then (Some Not_whitelisted, s)
      else if \<not> lastVotedElection s msg_sender < electionId s then (Some Already_voted, s)
      else (None,
            s\<lparr>lastVotedElection := (lastVotedElection s)(msg_sender := electionId s),
              lastVotedChoice := (lastVotedChoice s)(msg_sender := choiceIndex),
              lastVotedAt := (lastVotedAt s)(msg_sender := block_timestamp),
              choices := (choices s)[choiceIndex :=
                 (choices s ! choiceIndex)\<lparr>votes := votes (choices s ! choiceIndex) + 1\<rparr>],
              events := events s @ [VoteCast msg_sender choiceIndex]\<rparr>))"
    and "vote msg_sender block_timestamp choiceIndex s =
         transact (vote msg_sender block_timestamp choiceIndex) s"
proof -
  have "checked_add (votes (choices s ! choiceIndex)) 1 = Some (votes (choices s ! choiceIndex) + 1)"
    if "choiceIndex < length (choices s)"
    using assms that by (rule invariant_votes_no_overflow)
  then show "transact (vote msg_sender block_timestamp choiceIndex) s =
     (if \<not> electionActive s then (Some Election_not_active, s)
      else if \<not> choiceIndex < choiceCount s then (Some Invalid_choice, s)
      else if \<not> isWhitelisted s msg_sender then (Some Not_whitelisted, s)
      else if \<not> lastVotedElection s msg_sender < electionId s then (Some Already_voted, s)
      else (None,
            s\<lparr>lastVotedElection := (lastVotedElection s)(msg_sender := electionId s),
              lastVotedChoice := (lastVotedChoice s)(msg_sender := choiceIndex),
              lastVotedAt := (lastVotedAt s)(msg_sender := block_timestamp),
              choices := (choices s)[choiceIndex :=
                 (choices s ! choiceIndex)\<lparr>votes := votes (choices s ! choiceIndex) + 1\<rparr>],
              events := events s @ [VoteCast msg_sender choiceIndex]\<rparr>))"
    and "vote msg_sender block_timestamp choiceIndex s =
         transact (vote msg_sender block_timestamp choiceIndex) s"
    by (simp_all add: transact_def vote_def choiceCount_def Let_def)
qed

section \<open>The claims\<close>

subsection \<open>Casting a vote\<close>

text \<open>
  C1. In every reachable state, \<open>vote(choiceIndex)\<close> commits if and only if its four
  preconditions hold, checked in this order with the first failure winning: the election
  is active (else "Election not active", the InvalidState of the specification), the
  index is below \<open>choiceCount()\<close> (else "Invalid choice"), the caller is whitelisted (else
  "Not whitelisted"), and the caller's \<open>lastVotedElection\<close> is below \<open>electionId\<close> (else
  "Already voted"). A failure leaves the storage as it was, already in the body, before
  the transaction restores anything. On success the caller's \<open>lastVotedElection\<close> is the
  current \<open>electionId\<close>, the index and the timestamp are stored, and the \<open>votes\<close> of
  exactly that choice grow by exactly 1. The checked addition cannot panic, because the
  invariant bounds every count by the number of addresses.
\<close>

theorem vote_commits_iff_preconditions:
  assumes "reachable s"
  shows "transact (vote msg_sender block_timestamp choiceIndex) s =
     (if \<not> electionActive s then (Some Election_not_active, s)
      else if \<not> choiceIndex < choiceCount s then (Some Invalid_choice, s)
      else if \<not> isWhitelisted s msg_sender then (Some Not_whitelisted, s)
      else if \<not> lastVotedElection s msg_sender < electionId s then (Some Already_voted, s)
      else (None,
            s\<lparr>lastVotedElection := (lastVotedElection s)(msg_sender := electionId s),
              lastVotedChoice := (lastVotedChoice s)(msg_sender := choiceIndex),
              lastVotedAt := (lastVotedAt s)(msg_sender := block_timestamp),
              choices := (choices s)[choiceIndex :=
                 (choices s ! choiceIndex)\<lparr>votes := votes (choices s ! choiceIndex) + 1\<rparr>],
              events := events s @ [VoteCast msg_sender choiceIndex]\<rparr>))
     \<and> vote msg_sender block_timestamp choiceIndex s =
         transact (vote msg_sender block_timestamp choiceIndex) s"
proof -
  from assms have "invariant s" by (rule reachable_invariant)
  then show ?thesis
    using transact_vote_invariant [of s msg_sender block_timestamp choiceIndex] by simp
qed

theorem vote_commits_iff_preconditions_witness:
  "reachable scenario_started \<and>
   transact (vote 2 101 0) scenario_started =
     (None, scenario_started\<lparr>
        lastVotedElection := (lastVotedElection scenario_started)(2 := 1),
        lastVotedChoice := (lastVotedChoice scenario_started)(2 := 0),
        lastVotedAt := (lastVotedAt scenario_started)(2 := 101),
        choices := [\<lparr>label = ''A'', votes = 1\<rparr>, \<lparr>label = ''B'', votes = 0\<rparr>],
        events := events scenario_started @ [VoteCast 2 0]\<rparr>) \<and>
   transact (vote 4 101 0) scenario_started = (Some Not_whitelisted, scenario_started) \<and>
   transact (vote 4 101 2) scenario_started = (Some Invalid_choice, scenario_started)"
  using vote_commits_iff_preconditions [OF reachable_scenario_started, of 2 101 0]
    vote_commits_iff_preconditions [OF reachable_scenario_started, of 4 101 0]
    vote_commits_iff_preconditions [OF reachable_scenario_started, of 4 101 2]
    reachable_scenario_started
  by (simp add: scenario_started_eq choiceCount_def)

text \<open>
  C2, as stated: whenever an identity's \<open>lastVotedElection\<close> equals \<open>electionId\<close>, a
  further \<open>vote\<close> by it fails with "Already voted", whatever the index. After
  \<open>endElection\<close> the epoch is still the same, and the call fails with "Election not
  active" instead; while the election is active, an index that is out of range fails
  with "Invalid choice" instead.
\<close>

theorem repeated_vote_counterexample:
  "lastVotedElection scenario_ended 2 = electionId scenario_ended \<and>
   transact (vote 2 300 0) scenario_ended = (Some Election_not_active, scenario_ended) \<and>
   fst (transact (vote 2 300 0) scenario_ended) \<noteq> Some Already_voted \<and>
   lastVotedElection scenario_voted 2 = electionId scenario_voted \<and>
   transact (vote 2 103 5) scenario_voted = (Some Invalid_choice, scenario_voted) \<and>
   fst (transact (vote 2 103 5) scenario_voted) \<noteq> Some Already_voted"
  by (simp add: scenario_ended_eq scenario_voted_eq transact_def vote_def)

text \<open>
  C2, amended. For every identity and every state in which its \<open>lastVotedElection\<close>
  equals \<open>electionId\<close>, every further \<open>vote\<close> by that identity fails, whatever the
  index, and leaves the storage unchanged. The checks keep their order, so the reason is
  "Election not active" while the election is not active, "Invalid choice" for an index
  out of range, and "Already voted" otherwise: in a reachable state with the election
  active, for every index below \<open>choiceCount()\<close> (the identity is then still
  whitelisted).
\<close>

theorem repeated_vote_rejected:
  assumes "lastVotedElection s v = electionId s"
  shows "vote v block_timestamp i s =
           (if \<not> electionActive s then (Some Election_not_active, s)
            else if \<not> i < choiceCount s then (Some Invalid_choice, s)
            else if \<not> isWhitelisted s v then (Some Not_whitelisted, s)
            else (Some Already_voted, s))
         \<and> transact (vote v block_timestamp i) s = vote v block_timestamp i s
         \<and> (reachable s \<and> electionActive s \<and> i < choiceCount s \<longrightarrow>
              transact (vote v block_timestamp i) s = (Some Already_voted, s))"
proof -
  have body: "vote v block_timestamp i s =
           (if \<not> electionActive s then (Some Election_not_active, s)
            else if \<not> i < choiceCount s then (Some Invalid_choice, s)
            else if \<not> isWhitelisted s v then (Some Not_whitelisted, s)
            else (Some Already_voted, s))"
    using assms by (simp add: vote_def choiceCount_def)
  then have tx: "transact (vote v block_timestamp i) s = vote v block_timestamp i s"
    by (simp add: transact_def)
  have "isWhitelisted s v" if "reachable s" "electionActive s"
    using reachable_invariant [OF that(1)] that(2) assms by (simp add: invariant_def)
  with body tx show ?thesis by simp
qed

theorem repeated_vote_rejected_witness:
  "lastVotedElection scenario_voted 2 = electionId scenario_voted \<and>
   reachable scenario_voted \<and> electionActive scenario_voted \<and> 1 < choiceCount scenario_voted \<and>
   transact (vote 2 103 1) scenario_voted = (Some Already_voted, scenario_voted)"
proof -
  have h: "lastVotedElection scenario_voted 2 = electionId scenario_voted"
    by (simp add: scenario_voted_eq)
  have "electionActive scenario_voted \<and> 1 < choiceCount scenario_voted"
    by (simp add: scenario_voted_eq choiceCount_def)
  with repeated_vote_rejected [OF h, of 103 1] h reachable_scenario_voted
  show ?thesis by (simp add: scenario_voted_eq)
qed

subsection \<open>The lifecycle\<close>

text \<open>
  C3. In every reachable state \<open>startElection()\<close>, called by the owner, checks in this
  order that the election is not active (else "Election already active"), that there is
  a choice (else "No choices") and that some identity is whitelisted (else "No voters").
  On success every \<open>votes\<close> is 0, \<open>electionId\<close> has grown by exactly 1, the election is
  active, \<open>electionStart\<close> is the block timestamp and \<open>electionEnd\<close> is 0. On a failure
  \<open>electionId\<close> and all other storage are unchanged. Two more rejections surround the
  three: a caller who is not the owner is rejected first, and the checked increment of an
  \<open>electionId\<close> of \<open>2^256 - 1\<close> panics last.
\<close>

theorem startElection_spec:
  assumes "reachable s"
  shows "transact (startElection msg_sender block_timestamp) s =
     (if msg_sender \<noteq> owner s then (Some Only_owner, s)
      else if electionActive s then (Some Election_already_active, s)
      else if \<not> choiceCount s > 0 then (Some No_choices, s)
      else if \<not> (\<exists>a. isWhitelisted s a) then (Some No_voters, s)
      else if \<not> electionId s + 1 \<le> uint256_max then (Some Panic_overflow, s)
      else (None,
            s\<lparr>choices := map (\<lambda>c. c\<lparr>votes := 0\<rparr>) (choices s),
              electionId := electionId s + 1,
              electionActive := True,
              electionStart := block_timestamp,
              electionEnd := 0,
              events := events s @ [ElectionStarted block_timestamp]\<rparr>))"
proof -
  have "(\<exists>a \<in> set (whitelistAddresses s). isWhitelisted s a) = (\<exists>a. isWhitelisted s a)"
    using reachable_invariant [OF assms] by (auto simp: invariant_def)
  then have count: "(activeWhitelistCount s > 0) = (\<exists>a. isWhitelisted s a)"
    by (simp only: activeWhitelistCount_pos)
  show ?thesis
    by (auto simp: transact_def startElection_def choiceCount_def resetVotes_def
        resetVotes_loop_map checked_add_def Let_def count)
qed

theorem startElection_spec_witness:
  "reachable scenario_configured \<and>
   transact (startElection 1 100) scenario_configured =
     (None, scenario_configured\<lparr>electionId := 1, electionActive := True,
        electionStart := 100, electionEnd := 0,
        events := events scenario_configured @ [ElectionStarted 100]\<rparr>) \<and>
   transact (startElection 1 100) (constructor 1) = (Some No_choices, constructor 1)"
proof -
  have "\<exists>a::address. a = 2 \<or> a = 3" by blast
  with startElection_spec [OF reachable_scenario_configured, of 1 100]
    startElection_spec [OF reachable_init [of 1], of 1 100] reachable_scenario_configured
  show ?thesis
    by (simp add: scenario_configured_eq choiceCount_def uint256_max_def constructor_def)
qed

text \<open>
  C9. \<open>endElection()\<close>, called by the owner, requires the election to be active (else
  "Election already ended"). On success the election is inactive and \<open>electionEnd\<close> is the
  block timestamp; nothing else of the storage changes, so \<open>electionId\<close>, every label and
  vote count, the whitelist and all voter records are as before. The log gains
  \<open>ElectionEnded\<close>.
\<close>

theorem endElection_frame:
  "transact (endElection msg_sender block_timestamp) s =
     (if msg_sender \<noteq> owner s then (Some Only_owner, s)
      else if \<not> electionActive s then (Some Election_already_ended, s)
      else (None, s\<lparr>electionActive := False, electionEnd := block_timestamp,
                     events := events s @ [ElectionEnded block_timestamp]\<rparr>))
   \<and> (transact (endElection msg_sender block_timestamp) s = (None, s') \<longrightarrow>
        electionActive s \<and> \<not> electionActive s' \<and> electionEnd s' = block_timestamp \<and>
        electionId s' = electionId s \<and> choices s' = choices s \<and>
        whitelistAddresses s' = whitelistAddresses s \<and> isWhitelisted s' = isWhitelisted s \<and>
        lastVotedElection s' = lastVotedElection s \<and> lastVotedChoice s' = lastVotedChoice s \<and>
        lastVotedAt s' = lastVotedAt s \<and> owner s' = owner s \<and> pollTitle s' = pollTitle s \<and>
        electionStart s' = electionStart s)"
proof -
  have eq: "transact (endElection msg_sender block_timestamp) s =
     (if msg_sender \<noteq> owner s then (Some Only_owner, s)
      else if \<not> electionActive s then (Some Election_already_ended, s)
      else (None, s\<lparr>electionActive := False, electionEnd := block_timestamp,
                     events := events s @ [ElectionEnded block_timestamp]\<rparr>))"
    by (simp add: transact_def endElection_def)
  show ?thesis
    unfolding eq by (auto split: if_splits)
qed

theorem endElection_frame_witness:
  "transact (endElection 1 200) scenario_voted =
     (None, scenario_voted\<lparr>electionActive := False, electionEnd := 200,
                     events := events scenario_voted @ [ElectionEnded 200]\<rparr>) \<and>
   electionId scenario_ended = electionId scenario_voted \<and>
   choices scenario_ended = choices scenario_voted \<and>
   transact (endElection 1 201) scenario_ended = (Some Election_already_ended, scenario_ended)"
proof -
  have e: "transact (endElection 1 200) scenario_voted = (None, scenario_ended)"
    by (simp add: transact_def endElection_def scenario_ended_eq scenario_voted_eq)
  from endElection_frame [of 1 200 scenario_voted scenario_ended]
    endElection_frame [of 1 201 scenario_ended] e
  show ?thesis
    by (simp add: scenario_ended_eq scenario_voted_eq)
qed

subsection \<open>The whitelist\<close>

text \<open>
  C10. For every whitelisted identity, a successful \<open>removeFromWhitelist\<close> clears the
  flag of that identity and changes nothing else of the storage: the sequence is the
  same, so \<open>whitelistCount()\<close> is the same, \<open>whitelistEntry\<close> returns at every index the
  address it returned before, with the flag false where the address is the removed one
  and the old flag elsewhere, and the identity's last-voted data are untouched.
\<close>

theorem removeFromWhitelist_frame:
  assumes "isWhitelisted s voter"
    and "transact (removeFromWhitelist msg_sender voter) s = (None, s')"
  shows "s' = s\<lparr>isWhitelisted := (isWhitelisted s)(voter := False),
                events := events s @ [WhitelistRemoved voter]\<rparr>
       \<and> whitelistAddresses s' = whitelistAddresses s
       \<and> whitelistCount s' = whitelistCount s
       \<and> (\<forall>index < whitelistCount s.
            whitelistEntry index s' =
              Inr (whitelistAddresses s ! index,
                   whitelistAddresses s ! index \<noteq> voter \<and> isWhitelisted s (whitelistAddresses s ! index)))
       \<and> (\<forall>a. a \<noteq> voter \<longrightarrow> isWhitelisted s' a = isWhitelisted s a)
       \<and> lastVotedElection s' = lastVotedElection s
       \<and> lastVotedChoice s' = lastVotedChoice s
       \<and> lastVotedAt s' = lastVotedAt s"
proof -
  from assms(2) have "s' = s\<lparr>isWhitelisted := (isWhitelisted s)(voter := False),
                events := events s @ [WhitelistRemoved voter]\<rparr>"
    by (auto simp: transact_def removeFromWhitelist_def split: if_splits)
  then show ?thesis
    by (auto simp: whitelistCount_def whitelistEntry_def Let_def)
qed

theorem removeFromWhitelist_frame_witness:
  "isWhitelisted scenario_ended 2 \<and>
   transact (removeFromWhitelist 1 2) scenario_ended =
     (None, scenario_ended\<lparr>isWhitelisted := (isWhitelisted scenario_ended)(2 := False),
                events := events scenario_ended @ [WhitelistRemoved 2]\<rparr>) \<and>
   whitelistCount (snd (transact (removeFromWhitelist 1 2) scenario_ended)) = 2 \<and>
   whitelistEntry 0 (snd (transact (removeFromWhitelist 1 2) scenario_ended)) = Inr (2, False) \<and>
   lastVotedElection (snd (transact (removeFromWhitelist 1 2) scenario_ended)) 2 = 1"
proof -
  have w: "isWhitelisted scenario_ended 2"
    by (simp add: scenario_ended_eq scenario_voted_eq)
  have t: "transact (removeFromWhitelist 1 2) scenario_ended =
     (None, scenario_ended\<lparr>isWhitelisted := (isWhitelisted scenario_ended)(2 := False),
                events := events scenario_ended @ [WhitelistRemoved 2]\<rparr>)"
    by (simp add: scenario_ended_eq scenario_voted_eq transact_def removeFromWhitelist_def)
  from removeFromWhitelist_frame [OF w t] w t show ?thesis
    by (simp add: scenario_ended_eq scenario_voted_eq whitelistCount_def)
qed

subsection \<open>The tally\<close>

text \<open>
  C4. \<open>getWinner()\<close> passes once over the choices in index order. With no choice it
  returns \<open>hasWinner = false\<close> and zero or empty fields. Otherwise \<open>hasWinner\<close> is true,
  the reported votes are the maximum of all vote counts, the reported index is the lowest
  index with that count (every choice before it has strictly fewer votes), the label is
  the label at that index, and \<open>hasTie\<close> holds exactly when another index has the maximum
  too, so equal counts below the maximum never set it. The function returns no storage,
  and its result depends on \<open>choices\<close> alone: it is the same in every lifecycle state.
\<close>

theorem getWinner_spec:
  "(case getWinner s of (winnerIndex, lbl, v, hasTie, hasWinner) \<Rightarrow>
     hasWinner = (choiceCount s > 0) \<and>
     (choiceCount s = 0 \<longrightarrow> winnerIndex = 0 \<and> lbl = [] \<and> v = 0 \<and> \<not> hasTie) \<and>
     (choiceCount s > 0 \<longrightarrow>
        winnerIndex < choiceCount s \<and>
        lbl = label (choices s ! winnerIndex) \<and>
        v = votes (choices s ! winnerIndex) \<and>
        v = Max (set (map votes (choices s))) \<and>
        (\<forall>j < winnerIndex. votes (choices s ! j) < v) \<and>
        hasTie = (\<exists>j < choiceCount s. j \<noteq> winnerIndex \<and> votes (choices s ! j) = v)))
   \<and> (\<forall>s'. choices s' = choices s \<longrightarrow> getWinner s' = getWinner s)"
proof (cases "choices s = []")
  case True
  then show ?thesis by (simp add: getWinner_def choiceCount_def)
next
  case False
  obtain tv ti t f where loop: "getWinner_loop (choices s) 0 (0, 0, False, False) = (tv, ti, t, f)"
    by (metis prod_cases4)
  note L = getWinner_loop_leader [OF False loop]
  have "Max (set (map votes (choices s))) = tv"
  proof (rule Max_eqI)
    show "finite (set (map votes (choices s)))" by simp
    show "y \<le> tv" if "y \<in> set (map votes (choices s))" for y
      using that L by (auto simp: in_set_conv_nth)
    have "choices s ! ti \<in> set (choices s)"
      using L by simp
    then have "votes (choices s ! ti) \<in> set (map votes (choices s))"
      by simp
    then show "tv \<in> set (map votes (choices s))"
      using L by simp
  qed
  with L False loop show ?thesis
    by (simp add: getWinner_def choiceCount_def)
qed

theorem getWinner_spec_witness:
  "getWinner tally_3_3_1 = (0, ''A'', 3, True, True) \<and>
   getWinner scenario_voted = (0, ''A'', 1, True, True) \<and>
   getWinner (constructor 1) = (0, [], 0, False, False)"
  using getWinner_spec [of tally_3_3_1] getWinner_spec [of scenario_voted]
    getWinner_spec [of "constructor 1"]
  by (simp add: getWinner_def tally_3_3_1_def scenario_voted_eq constructor_def)

subsection \<open>The enumeration sequence\<close>

text \<open>
  C6. The claim is that the sequence \<open>whitelistAddresses\<close> never holds an identity
  twice, also when an identity is added again after its removal. \<open>removeFromWhitelist\<close>
  clears the flag and keeps the entry, and the guard of \<open>addToWhitelist\<close> reads the
  flag, so adding the identity again pushes a second entry: after add, remove, add of
  the identity \<open>2\<close> on a new contract the sequence is \<open>[2, 2]\<close>.
\<close>

theorem readd_after_remove_duplicates_entry:
  "whitelistAddresses
     (snd (exec 1 3 (AddToWhitelist 2)
       (snd (exec 1 2 (RemoveFromWhitelist 2)
         (snd (exec 1 1 (AddToWhitelist 2) (constructor 1))))))) = [2, 2]
   \<and> fst (exec 1 3 (AddToWhitelist 2)
       (snd (exec 1 2 (RemoveFromWhitelist 2)
         (snd (exec 1 1 (AddToWhitelist 2) (constructor 1)))))) = None
   \<and> whitelistCount
     (snd (exec 1 3 (AddToWhitelist 2)
       (snd (exec 1 2 (RemoveFromWhitelist 2)
         (snd (exec 1 1 (AddToWhitelist 2) (constructor 1))))))) = 2
   \<and> whitelistEntry 1
     (snd (exec 1 3 (AddToWhitelist 2)
       (snd (exec 1 2 (RemoveFromWhitelist 2)
         (snd (exec 1 1 (AddToWhitelist 2) (constructor 1))))))) = Inr (2, True)"
  by (simp add: exec_def transact_def addToWhitelist_def removeFromWhitelist_def constructor_def
      whitelistCount_def whitelistEntry_def)

subsection \<open>Rejections\<close>

text \<open>
  C7, as stated: every error is raised before any write. \<open>setChoices\<close> deletes the old
  choices and pushes each label before it checks the next one: with the labels C and
  blank, the call reverts with "Empty choice" while the working storage already holds the
  single choice C. \<open>setWhitelist\<close> clears the old whitelist and flags each identity
  before it checks the next one: with the identities \<open>4\<close> and \<open>0\<close>, the call reverts
  with "Invalid voter" while the working storage holds the whitelist of \<open>4\<close> alone.
\<close>

theorem setChoices_writes_before_validating_counterexample:
  "setChoices 1 [''C'', ''''] scenario_configured =
     (Some Empty_choice, scenario_configured\<lparr>choices := [\<lparr>label = ''C'', votes = 0\<rparr>]\<rparr>) \<and>
   snd (setChoices 1 [''C'', ''''] scenario_configured) \<noteq> scenario_configured \<and>
   setWhitelist 1 [4, 0] scenario_configured =
     (Some Invalid_voter, scenario_configured\<lparr>isWhitelisted := (\<lambda>a. a = 4),
        whitelistAddresses := [4]\<rparr>) \<and>
   snd (setWhitelist 1 [4, 0] scenario_configured) \<noteq> scenario_configured"
  by (simp add: setChoices_def setWhitelist_def clearWhitelist_def scenario_configured_eq
      fun_eq_iff)

text \<open>
  C7, amended. Every call either commits or reverts with the storage exactly as before
  the call. The caller, lifecycle, empty-list, whitelist-membership, index and
  already-voted checks are raised before any write of their call. The check of each
  label in \<open>setChoices\<close> and of each identity in \<open>setWhitelist\<close> runs inside the loop
  that writes, after the old list was cleared, and the arithmetic panics follow writes
  too; there the storage is unchanged because the transaction discards the writes of a
  reverted call. So \<open>setChoices\<close> with a blank label anywhere and \<open>setWhitelist\<close> with
  the zero address anywhere, called by the owner while inactive, revert and leave choices
  and whitelist as they were.
\<close>

theorem calls_commit_or_revert:
  "(exec m t c s = (Some e, s') \<longrightarrow> s' = s)
   \<and> (dispatch m t c s = (Some e, w) \<and> e \<noteq> Panic_overflow \<and> e \<noteq> Empty_choice \<and>
        (\<forall>vs. c = SetWhitelist vs \<longrightarrow> e \<noteq> Invalid_voter) \<longrightarrow> w = s)
   \<and> (m = owner s \<and> \<not> electionActive s \<and> [] \<in> set ls \<longrightarrow>
        exec m t (SetChoices ls) s = (Some Empty_choice, s))
   \<and> (m = owner s \<and> \<not> electionActive s \<and> 0 \<in> set vs \<longrightarrow>
        exec m t (SetWhitelist vs) s = (Some Invalid_voter, s))"
proof (intro conjI impI)
  assume "exec m t c s = (Some e, s')"
  then show "s' = s"
    by (auto simp: exec_def transact_def split: prod.splits option.splits)
next
  assume "dispatch m t c s = (Some e, w) \<and> e \<noteq> Panic_overflow \<and> e \<noteq> Empty_choice \<and>
        (\<forall>vs. c = SetWhitelist vs \<longrightarrow> e \<noteq> Invalid_voter)"
  then show "w = s"
    using dispatch_early_reject by blast
next
  assume "m = owner s \<and> \<not> electionActive s \<and> [] \<in> set ls"
  then show "exec m t (SetChoices ls) s = (Some Empty_choice, s)"
    by (auto simp: exec_def transact_def setChoices_def setChoices_loop_eq)
next
  assume a: "m = owner s \<and> \<not> electionActive s \<and> 0 \<in> set vs"
  obtain r0 t0 where loop: "setWhitelist_loop vs (clearWhitelist s) = (r0, t0)"
    by (metis surj_pair)
  from setWhitelist_loop_error [of vs "clearWhitelist s"] loop a
  have "r0 = Some Invalid_voter" by simp
  with a loop show "exec m t (SetWhitelist vs) s = (Some Invalid_voter, s)"
    by (auto simp: exec_def transact_def setWhitelist_def)
qed

theorem calls_commit_or_revert_witness:
  "exec 1 20 (SetChoices [''C'', '''']) scenario_configured = (Some Empty_choice, scenario_configured) \<and>
   exec 1 20 (SetWhitelist [4, 0]) scenario_configured = (Some Invalid_voter, scenario_configured) \<and>
   dispatch 2 20 (SetChoices [''C'']) scenario_configured = (Some Only_owner, scenario_configured)"
proof -
  have pre: "(1::address) = owner scenario_configured \<and> \<not> electionActive scenario_configured
      \<and> [] \<in> set [''C'', ''''] \<and> (0::address) \<in> set [4, 0]"
    by (simp add: scenario_configured_eq)
  have d: "dispatch 2 20 (SetChoices [''C'']) scenario_configured = (Some Only_owner, scenario_configured)"
    by (simp add: setChoices_def scenario_configured_eq)
  from calls_commit_or_revert [of 1 20 "SetChoices [''C'']" scenario_configured Only_owner
      scenario_configured scenario_configured "[''C'', '''']" "[4, 0]"] pre d
  show ?thesis by simp
qed

subsection \<open>Wholesale replacement\<close>

text \<open>
  C8. In every reachable state, hence after any sequence of earlier calls, a successful
  \<open>setChoices\<close> leaves exactly the labels of that call as the choice list, each with
  0 votes, and a successful \<open>setWhitelist\<close> leaves exactly the identities of that call
  whitelisted (and as the entries of the sequence): nothing of an earlier call is merged
  in.
\<close>

theorem set_calls_replace_wholesale:
  assumes "reachable s"
  shows "(transact (setChoices msg_sender labels) s = (None, s') \<longrightarrow>
            choices s' = map (\<lambda>l. \<lparr>label = l, votes = 0\<rparr>) labels)
       \<and> (transact (setWhitelist msg_sender voters) s = (None, s'') \<longrightarrow>
            {a. isWhitelisted s'' a} = set voters \<and> set (whitelistAddresses s'') = set voters)"
proof (rule conjI; rule impI)
  assume "transact (setChoices msg_sender labels) s = (None, s')"
  then show "choices s' = map (\<lambda>l. \<lparr>label = l, votes = 0\<rparr>) labels"
    by (auto simp: transact_def setChoices_def setChoices_loop_eq split: if_splits)
next
  assume "transact (setWhitelist msg_sender voters) s = (None, s'')"
  then obtain t where
    loop: "setWhitelist_loop voters (clearWhitelist s) = (None, t)" and
    s'': "s'' = t\<lparr>events := events t @ [WhitelistSet (length voters)]\<rparr>"
    by (auto simp: transact_def setWhitelist_def split: if_splits prod.splits option.splits)
  from reachable_invariant [OF assms]
  have tracked: "\<And>a. isWhitelisted s a \<Longrightarrow> a \<in> set (whitelistAddresses s)"
    by (simp add: invariant_def)
  have "isWhitelisted t = (\<lambda>a. a \<in> set voters)"
    using setWhitelist_loop_flags [OF loop] tracked
    by (auto simp: clearWhitelist_def clearWhitelist_loop_eq fun_eq_iff)
  moreover have "set (whitelistAddresses t) = set voters"
    using setWhitelist_loop_addresses [OF loop] tracked
    by (auto simp: clearWhitelist_def clearWhitelist_loop_eq)
  ultimately show "{a. isWhitelisted s'' a} = set voters \<and> set (whitelistAddresses s'') = set voters"
    by (simp add: s'')
qed

theorem set_calls_replace_wholesale_witness:
  "reachable scenario_ended \<and>
   transact (setChoices 1 [''C'']) scenario_ended =
     (None, scenario_ended\<lparr>choices := [\<lparr>label = ''C'', votes = 0\<rparr>],
        events := events scenario_ended @ [ChoicesSet 1]\<rparr>) \<and>
   {a. isWhitelisted (snd (transact (setWhitelist 1 [4]) scenario_ended)) a} = {4} \<and>
   fst (transact (setWhitelist 1 [4]) scenario_ended) = None"
proof -
  have c: "transact (setChoices 1 [''C'']) scenario_ended =
     (None, scenario_ended\<lparr>choices := [\<lparr>label = ''C'', votes = 0\<rparr>],
        events := events scenario_ended @ [ChoicesSet 1]\<rparr>)"
    by (simp add: transact_def setChoices_def scenario_ended_eq scenario_voted_eq)
  have w: "fst (transact (setWhitelist 1 [4]) scenario_ended) = None"
    by (simp add: transact_def setWhitelist_def clearWhitelist_def scenario_ended_eq
        scenario_voted_eq)
  then have w': "transact (setWhitelist 1 [4]) scenario_ended =
      (None, snd (transact (setWhitelist 1 [4]) scenario_ended))"
    by (metis prod.collapse)
  from set_calls_replace_wholesale [OF reachable_scenario_ended, where msg_sender = 1
      and labels = "[''C'']" and voters = "[4]"
      and s'' = "snd (transact (setWhitelist 1 [4]) scenario_ended)"] c w w'
    reachable_scenario_ended
  show ?thesis by simp
qed

subsection \<open>Votes of past elections\<close>

text \<open>
  C5. Let an identity \<open>v\<close> have its last vote recorded at epoch \<open>e1\<close> in a reachable state
  whose current epoch is \<open>e2 > e1\<close>. The vote does not block \<open>v\<close>: a \<open>vote\<close> by \<open>v\<close> is
  never rejected with "Already voted", and it commits when the election is active, the
  index is valid and \<open>v\<close> is whitelisted. The vote does not count: the votes of the
  current tally are at most as many as the identities other than \<open>v\<close> that voted at
  \<open>e2\<close>, and a successful \<open>startElection\<close> sets every count to 0 and moves to the next
  epoch, where \<open>v\<close> is again not blocked. The record is retained: no call but a
  \<open>vote\<close> of \<open>v\<close> itself changes the epoch, index or timestamp recorded for \<open>v\<close>.
\<close>

theorem past_epoch_vote_neither_counts_nor_blocks:
  assumes "reachable s"
    and "lastVotedElection s v = e1" and "electionId s = e2" and "e1 < e2"
  shows "fst (transact (vote v block_timestamp i) s) \<noteq> Some Already_voted
       \<and> (electionActive s \<and> i < choiceCount s \<and> isWhitelisted s v \<longrightarrow>
            fst (transact (vote v block_timestamp i) s) = None)
       \<and> sum_list (map votes (choices s)) \<le> card ({a. lastVotedElection s a = e2} - {v})
       \<and> (transact (startElection msg_sender start_timestamp) s = (None, s') \<longrightarrow>
            electionId s' = e2 + 1 \<and> (\<forall>c \<in> set (choices s'). votes c = 0) \<and>
            fst (transact (vote v block_timestamp i) s') \<noteq> Some Already_voted)
       \<and> (m \<noteq> v \<or> (\<forall>k. c \<noteq> Vote k) \<longrightarrow>
            lastVotedElection (snd (exec m block_timestamp c s)) v = e1 \<and>
            lastVotedChoice (snd (exec m block_timestamp c s)) v = lastVotedChoice s v \<and>
            lastVotedAt (snd (exec m block_timestamp c s)) v = lastVotedAt s v)"
proof -
  have inv: "invariant s" using assms(1) by (rule reachable_invariant)
  have lt: "lastVotedElection s v < electionId s" using assms(2-4) by simp
  have not_blocked: "fst (transact (vote v block_timestamp i) s) \<noteq> Some Already_voted"
    using lt by (simp add: transact_vote_invariant(1) [OF inv])
  have commits: "fst (transact (vote v block_timestamp i) s) = None"
    if "electionActive s \<and> i < choiceCount s \<and> isWhitelisted s v"
    using lt that by (simp add: transact_vote_invariant(1) [OF inv])
  have "{a. lastVotedElection s a = e2} - {v} = {a. lastVotedElection s a = e2}"
    using assms(2,4) by auto
  then have tally: "sum_list (map votes (choices s)) \<le> card ({a. lastVotedElection s a = e2} - {v})"
    using inv assms(3) by (simp add: invariant_def)
  have start: "electionId s' = e2 + 1 \<and> (\<forall>c \<in> set (choices s'). votes c = 0) \<and>
            fst (transact (vote v block_timestamp i) s') \<noteq> Some Already_voted"
    if tx: "transact (startElection msg_sender start_timestamp) s = (None, s')"
  proof -
    from tx have body: "startElection msg_sender start_timestamp s = (None, s')"
      by (auto simp: transact_def split: prod.splits option.splits)
    then have inv': "invariant s'" using inv invariant_startElection by blast
    from body have s': "s' = s\<lparr>choices := map (\<lambda>c. c\<lparr>votes := 0\<rparr>) (choices s),
        electionId := electionId s + 1, electionActive := True,
        electionStart := start_timestamp, electionEnd := 0,
        events := events s @ [ElectionStarted start_timestamp]\<rparr>"
      by (auto simp: startElection_def resetVotes_def resetVotes_loop_map checked_add_def
          Let_def split: if_splits)
    have "lastVotedElection s' v < electionId s'"
      using lt by (simp add: s')
    then have "fst (transact (vote v block_timestamp i) s') \<noteq> Some Already_voted"
      by (simp add: transact_vote_invariant(1) [OF inv'])
    moreover have "electionId s' = e2 + 1" "\<forall>c \<in> set (choices s'). votes c = 0"
      using assms(3) by (auto simp: s')
    ultimately show ?thesis by simp
  qed
  have kept: "lastVotedElection (snd (exec m block_timestamp c s)) v = e1 \<and>
            lastVotedChoice (snd (exec m block_timestamp c s)) v = lastVotedChoice s v \<and>
            lastVotedAt (snd (exec m block_timestamp c s)) v = lastVotedAt s v"
    if "m \<noteq> v \<or> (\<forall>k. c \<noteq> Vote k)"
    using exec_records [OF that, of block_timestamp s] assms(2) by simp
  from not_blocked commits tally start kept show ?thesis by blast
qed

theorem past_epoch_vote_neither_counts_nor_blocks_witness:
  "reachable scenario_restarted \<and> lastVotedElection scenario_restarted 2 = 1 \<and>
   electionId scenario_restarted = 2 \<and> (1::nat) < 2 \<and>
   fst (transact (vote 2 301 0) scenario_restarted) = None \<and>
   sum_list (map votes (choices scenario_restarted)) \<le> 0 \<and>
   lastVotedAt (snd (exec 1 400 EndElection scenario_restarted)) 2 = 101"
proof -
  have h: "lastVotedElection scenario_restarted 2 = 1" "electionId scenario_restarted = 2"
    "(1::nat) < 2"
    by (simp_all add: scenario_restarted_eq)
  have p: "electionActive scenario_restarted \<and> 0 < choiceCount scenario_restarted \<and>
      isWhitelisted scenario_restarted 2"
    by (simp add: scenario_restarted_eq choiceCount_def)
  have e: "{a. lastVotedElection scenario_restarted a = 2} = {}"
    by (simp add: scenario_restarted_eq)
  have r: "lastVotedAt scenario_restarted 2 = 101"
    by (simp add: scenario_restarted_eq)
  from past_epoch_vote_neither_counts_nor_blocks [OF reachable_scenario_restarted h,
      where block_timestamp = 301 and i = 0]
  have a: "fst (transact (vote 2 301 0) scenario_restarted) = None"
    and b: "sum_list (map votes (choices scenario_restarted)) \<le> 0"
    using p e by simp_all
  from past_epoch_vote_neither_counts_nor_blocks [OF reachable_scenario_restarted h,
      where block_timestamp = 400 and m = 1 and c = EndElection]
  have c: "lastVotedAt (snd (exec 1 400 EndElection scenario_restarted)) 2 = 101"
    using r by simp
  from a b c h reachable_scenario_restarted show ?thesis by simp
qed

end
